theory Spec2Isabelle
  imports Main "HOL-Library.Word"
begin

section \<open>The inference context of the Miloco AI engine (mico-common)\<close>

text \<open>
  A shallow embedding of \<^verbatim>\<open>core/utils/mico-common.cpp\<close> and its header:
  the per-sequence state record, the completion-to-sequence mapping with its three
  operations, the crop-boundary search of the constructor, the vision start-up step
  and the antiprompt test.

  Types: \<^verbatim>\<open>int32_t\<close> and \<^verbatim>\<open>llama_token\<close> are \<open>32 word\<close> (read with
  \<open>sint\<close>), \<^verbatim>\<open>size_t\<close> is \<open>64 word\<close> (read with \<open>unat\<close>). The loop counter
  \<^verbatim>\<open>int i\<close> of \<^verbatim>\<open>set_seq_id\<close> is an \<open>int\<close>: it stays between 0 and
  \<^verbatim>\<open>n_seq_max\<close>, so it never overflows.
\<close>

type_synonym llama_token = "32 word"
type_synonym llama_tokens = "llama_token list"
type_synonym size_t = "64 word"
type_synonym int32_t = "32 word"

subsection \<open>Failures\<close>

text \<open>
  Start-up ends the process with \<^verbatim>\<open>exit(1)\<close> on an unrecoverable error. Reading a
  \<^verbatim>\<open>std::vector\<close> with \<^verbatim>\<open>operator[]\<close> at an index that is not below its size is
  undefined behaviour in C++; the model makes it a failure of its own.
\<close>

datatype failure = Exit nat | OutOfBounds

subsection \<open>Per-sequence state\<close>

type_synonym bitmap = "8 word list"

record LlamaSeqState =
  last_token :: llama_token
  n_past :: size_t
  is_infering :: bool
  respone :: string
  bitmaps :: "bitmap list"

text \<open>The member initialisers of \<^verbatim>\<open>struct LlamaSeqState\<close>.\<close>

definition LlamaSeqState_init :: LlamaSeqState where
  "LlamaSeqState_init =
     \<lparr>last_token = - 1, n_past = 0, is_infering = False, respone = [], bitmaps = []\<rparr>"

subsection \<open>The context\<close>

text \<open>
  The two mutexes of the context. \<^verbatim>\<open>std::lock_guard\<close> locks in its constructor and
  unlocks when the function returns; the model records both events, in order, in the
  ghost field \<open>lock_trace\<close>, which no operation reads.
\<close>

datatype mutex = process_seqs_mutex | cmpl_to_seq_mutex

datatype lock_event = Lock mutex | Unlock mutex

type_synonym handle = nat

text \<open>
  \<^verbatim>\<open>process_seqs\<close> is a \<^verbatim>\<open>std::map\<close> that is only ever subscripted: a partial
  function. \<^verbatim>\<open>cmpl_to_seq\<close> is a \<^verbatim>\<open>std::map\<close> that \<^verbatim>\<open>erase_seq\<close> iterates
  over, in ascending key order: an association list kept in key order.
\<close>

record LlamaMicoContext =
  ctx_vision :: "handle option"
  crop_tokens_lable :: llama_tokens
  n_batch :: int32_t
  n_seq_max :: int32_t
  n_usage_context :: int32_t
  kv_cache_seq :: int32_t
  process_seqs :: "size_t \<rightharpoonup> LlamaSeqState"
  cmpl_to_seq :: "(size_t \<times> int32_t) list"
  antiprompt_tokens :: llama_tokens
  n_threads :: int32_t
  lock_trace :: "lock_event list"

definition lock_guard :: "mutex \<Rightarrow> LlamaMicoContext \<Rightarrow> LlamaMicoContext" where
  "lock_guard m ctx = ctx\<lparr>lock_trace := lock_trace ctx @ [Lock m]\<rparr>"

definition lock_guard_exit :: "mutex \<Rightarrow> LlamaMicoContext \<Rightarrow> LlamaMicoContext" where
  "lock_guard_exit m ctx = ctx\<lparr>lock_trace := lock_trace ctx @ [Unlock m]\<rparr>"

subsection \<open>Operations of \<^verbatim>\<open>std::map\<close> on the key-ordered association list\<close>

text \<open>\<^verbatim>\<open>count(key)\<close>: the number of entries with that key.\<close>

definition map_count :: "('k \<times> 'v) list \<Rightarrow> 'k \<Rightarrow> nat" where
  "map_count m key = length (filter (\<lambda>e. fst e = key) m)"

text \<open>
  \<^verbatim>\<open>m[key] = v\<close>: the entry of \<open>key\<close> is overwritten, or a new entry is inserted at
  its place in the key order.
\<close>

fun map_assign :: "('k::linorder \<times> 'v) list \<Rightarrow> 'k \<Rightarrow> 'v \<Rightarrow> ('k \<times> 'v) list" where
  "map_assign [] key v = [(key, v)]"
| "map_assign ((k, w) # m) key v =
     (if key < k then (key, v) # (k, w) # m
      else if key = k then (k, v) # m
      else (k, w) # map_assign m key v)"

text \<open>
  Reading \<^verbatim>\<open>m[key]\<close>: the value of the entry; a key that is absent is first inserted
  with a value-initialised value (0 for \<^verbatim>\<open>int32_t\<close>), so the read can change the map.
\<close>

definition map_subscript ::
  "('k::linorder \<times> 'v::zero) list \<Rightarrow> 'k \<Rightarrow> 'v \<times> ('k \<times> 'v) list" where
  "map_subscript m key =
     (case map_of m key of
        Some v \<Rightarrow> (v, m)
      | None \<Rightarrow> (0, map_assign m key 0))"

text \<open>\<^verbatim>\<open>erase(key)\<close>: removes the entry with that key, if there is one.\<close>

definition map_erase :: "('k \<times> 'v) list \<Rightarrow> 'k \<Rightarrow> ('k \<times> 'v) list" where
  "map_erase m key = filter (\<lambda>e. fst e \<noteq> key) m"

subsection \<open>Sequence slots\<close>

text \<open>
  \<^verbatim>\<open>get_seq_state\<close> returns a reference to \<^verbatim>\<open>process_seqs[seq_id]\<close>; subscripting
  creates the record, with its initial values, when the key is new. The model returns the
  record behind the reference and the context after the call.
\<close>

definition get_seq_state ::
  "LlamaMicoContext \<Rightarrow> size_t \<Rightarrow> LlamaSeqState \<times> LlamaMicoContext" where
  "get_seq_state ctx seq_id =
     (let ctx1 = lock_guard process_seqs_mutex ctx in
      case process_seqs ctx1 seq_id of
        Some st \<Rightarrow> (st, lock_guard_exit process_seqs_mutex ctx1)
      | None \<Rightarrow>
          (LlamaSeqState_init,
           lock_guard_exit process_seqs_mutex
             (ctx1\<lparr>process_seqs := (process_seqs ctx1)(seq_id \<mapsto> LlamaSeqState_init)\<rparr>)))"

text \<open>
  The loop of \<^verbatim>\<open>set_seq_id\<close>, from counter \<open>i\<close> on: the first slot below
  \<^verbatim>\<open>n_seq_max\<close> whose \<^verbatim>\<open>is_infering\<close> is false, or the initial value \<open>-1\<close> of
  \<^verbatim>\<open>seq_id\<close>. The counter is converted to \<^verbatim>\<open>size_t\<close> for \<^verbatim>\<open>get_seq_state\<close>
  and to \<^verbatim>\<open>int32_t\<close> for \<^verbatim>\<open>seq_id\<close>.
\<close>

function scan_seqs :: "LlamaMicoContext \<Rightarrow> int \<Rightarrow> int32_t \<times> LlamaMicoContext" where
  "scan_seqs ctx i =
     (if i < sint (n_seq_max ctx) then
        (case get_seq_state ctx (of_int i) of
           (st, ctx') \<Rightarrow>
             if \<not> is_infering st then (of_int i, ctx') else scan_seqs ctx' (i + 1))
      else (- 1, ctx))"
  by pat_completeness auto
termination
  by (relation "measure (\<lambda>(ctx, i). nat (sint (n_seq_max ctx) - i))")
     (auto simp: get_seq_state_def lock_guard_def lock_guard_exit_def Let_def
           split: option.splits)

declare scan_seqs.simps [simp del]

definition set_seq_id :: "LlamaMicoContext \<Rightarrow> size_t \<Rightarrow> int32_t \<times> LlamaMicoContext" where
  "set_seq_id ctx cmpl_id =
     (let ctx1 = lock_guard cmpl_to_seq_mutex ctx in
      case scan_seqs ctx1 0 of
        (seq_id, ctx2) \<Rightarrow>
          let ctx3 =
                (if seq_id \<noteq> - 1
                 then ctx2\<lparr>cmpl_to_seq := map_assign (cmpl_to_seq ctx2) cmpl_id seq_id\<rparr>
                 else ctx2)
          in (seq_id, lock_guard_exit cmpl_to_seq_mutex ctx3))"

definition get_seq_id :: "LlamaMicoContext \<Rightarrow> size_t \<Rightarrow> int32_t \<times> LlamaMicoContext" where
  "get_seq_id ctx cmpl_id =
     (let ctx1 = lock_guard cmpl_to_seq_mutex ctx in
      if map_count (cmpl_to_seq ctx1) cmpl_id > 0 then
        (case map_subscript (cmpl_to_seq ctx1) cmpl_id of
           (has, m) \<Rightarrow> (has, lock_guard_exit cmpl_to_seq_mutex (ctx1\<lparr>cmpl_to_seq := m\<rparr>)))
      else (- 1, lock_guard_exit cmpl_to_seq_mutex ctx1))"

text \<open>
  The range-for of \<^verbatim>\<open>erase_seq\<close>: the key of the first entry, in key order, whose
  value is \<open>seq_id\<close>; \<open>to_erase\<close> keeps its initial value when there is none.
\<close>

fun find_seq :: "(size_t \<times> int32_t) list \<Rightarrow> int32_t \<Rightarrow> size_t \<Rightarrow> size_t" where
  "find_seq [] seq_id to_erase = to_erase"
| "find_seq ((k, v) # m) seq_id to_erase =
     (if v = seq_id then k else find_seq m seq_id to_erase)"

text \<open>
  \<^verbatim>\<open>size_t to_erase = -1\<close> is the largest \<^verbatim>\<open>size_t\<close>, and \<^verbatim>\<open>to_erase >= 0\<close>
  compares unsigned values (\<open>\<le>\<close> on words is the unsigned order).
\<close>

definition erase_seq :: "LlamaMicoContext \<Rightarrow> int32_t \<Rightarrow> bool \<times> LlamaMicoContext" where
  "erase_seq ctx seq_id =
     (let ctx1 = lock_guard cmpl_to_seq_mutex ctx;
          to_erase = find_seq (cmpl_to_seq ctx1) seq_id (- 1);
          ctx2 =
            (if 0 \<le> to_erase
             then ctx1\<lparr>cmpl_to_seq := map_erase (cmpl_to_seq ctx1) to_erase\<rparr>
             else ctx1)
      in (0 \<le> to_erase, lock_guard_exit cmpl_to_seq_mutex ctx2))"

subsection \<open>Construction\<close>

text \<open>The fields of \<^verbatim>\<open>common_params\<close> that the constructor reads.\<close>

record common_params =
  params_n_threads :: int32_t
  params_n_batch :: int32_t
  params_n_usage_context :: int32_t
  params_n_seq_max :: int32_t
  params_cache_seq :: int32_t
  params_chat_template :: string
  params_mmproj_path :: string
  params_mmproj_use_gpu :: bool

text \<open>
  The inference library and the multimodal loader are outside these sources. What their
  calls return is a parameter of the model: the model and context pointers of
  \<^verbatim>\<open>common_init_from_params\<close> (\<open>None\<close> for a null pointer), the template that
  \<^verbatim>\<open>llama_model_chat_template\<close> finds in the model, the tokenizer, the rendering of
  a one-message chat by the template named in the configuration, and the loader of the
  vision model, from a path and the GPU flag.
\<close>

record engine =
  llama_init_model :: "handle option"
  llama_init_context :: "handle option"
  llama_model_chat_template :: "string option"
  common_tokenize :: "string \<Rightarrow> llama_tokens"
  common_chat_format_example :: "string \<Rightarrow> string \<Rightarrow> string \<Rightarrow> string"
  mtmd_init_from_file :: "string \<Rightarrow> bool \<Rightarrow> handle option"

text \<open>
  The inner loop of the crop-boundary search, from \<open>j\<close> on: \<open>found\<close> for the position
  \<open>i\<close>. \<^verbatim>\<open>label_tokens[i + j]\<close> is read without a bounds check.
\<close>

function match_at :: "llama_tokens \<Rightarrow> llama_tokens \<Rightarrow> nat \<Rightarrow> nat \<Rightarrow> failure + bool" where
  "match_at label_tokens placeholder_tokens i j =
     (if j < length placeholder_tokens then
        (if i + j < length label_tokens then
           (if label_tokens ! (i + j) \<noteq> placeholder_tokens ! j then Inr False
            else match_at label_tokens placeholder_tokens i (j + 1))
         else Inl OutOfBounds)
      else Inr True)"
  by pat_completeness auto
termination
  by (relation "measure (\<lambda>(l, p, i, j). length p - j)") auto

declare match_at.simps [simp del]

text \<open>
  The loop bound \<^verbatim>\<open>label_tokens.size() - placeholder_tokens.size()\<close> is a difference
  of two \<^verbatim>\<open>size_t\<close>: it wraps around when the placeholder is the longer one.
\<close>

definition crop_bound :: "llama_tokens \<Rightarrow> llama_tokens \<Rightarrow> nat" where
  "crop_bound label_tokens placeholder_tokens =
     unat ((of_nat (length label_tokens) :: size_t) - of_nat (length placeholder_tokens))"

text \<open>
  The outer loop, from \<open>i\<close> on. It yields the new value of \<^verbatim>\<open>crop_tokens_lable\<close>,
  the tokens before position \<open>i\<close>, at the first \<open>i\<close> where the placeholder is found;
  when the loop ends without a find the member keeps its initial value, the empty vector.
  The counter is a \<open>nat\<close>: an iteration that goes on to \<open>i + 1\<close> has read
  \<^verbatim>\<open>label_tokens[i]\<close> in bounds, so the counter stays within the size of the vector and
  \<^verbatim>\<open>++i\<close> does not wrap.
\<close>

function crop_search :: "llama_tokens \<Rightarrow> llama_tokens \<Rightarrow> nat \<Rightarrow> failure + llama_tokens" where
  "crop_search label_tokens placeholder_tokens i =
     (if i \<le> crop_bound label_tokens placeholder_tokens then
        (case match_at label_tokens placeholder_tokens i 0 of
           Inl e \<Rightarrow> Inl e
         | Inr found \<Rightarrow>
             if found then Inr (take i label_tokens)
             else crop_search label_tokens placeholder_tokens (i + 1))
      else Inr [])"
  by pat_completeness auto
termination
  by (relation "measure (\<lambda>(l, p, i). Suc (crop_bound l p) - i)") auto

declare crop_search.simps [simp del]

text \<open>
  \<^verbatim>\<open>init_vision_context\<close>: the loader is called with \<^verbatim>\<open>params.mmproj.path\<close>,
  whatever it is, and a null result ends the process. The result is the new
  \<^verbatim>\<open>ctx_vision\<close>.
\<close>

definition init_vision_context :: "engine \<Rightarrow> common_params \<Rightarrow> failure + handle option" where
  "init_vision_context eng params =
     (let clip_path = params_mmproj_path params;
          vision = mtmd_init_from_file eng clip_path (params_mmproj_use_gpu params)
      in if vision = None then Inl (Exit 1) else Inr vision)"

text \<open>
  The constructor, in the order of its statements. The maps start empty and no lock has
  been taken.
\<close>

definition new_LlamaMicoContext :: "engine \<Rightarrow> common_params \<Rightarrow> failure + LlamaMicoContext" where
  "new_LlamaMicoContext eng params =
     (let seq_max = params_n_seq_max params - params_cache_seq params in
      if llama_init_model eng = None \<or> llama_init_context eng = None then Inl (Exit 1)
      else if llama_model_chat_template eng = None \<and> params_chat_template params = []
      then Inl (Exit 1)
      else
        let placeholder = ''*=*'';
            placeholder_tokens = common_tokenize eng placeholder;
            user_label =
              common_chat_format_example eng (params_chat_template params) ''user'' placeholder;
            label_tokens = common_tokenize eng user_label
        in case crop_search label_tokens placeholder_tokens 0 of
             Inl e \<Rightarrow> Inl e
           | Inr crop \<Rightarrow>
               (case init_vision_context eng params of
                  Inl e \<Rightarrow> Inl e
                | Inr vision \<Rightarrow>
                    Inr \<lparr>ctx_vision = vision,
                         crop_tokens_lable = crop,
                         n_batch = params_n_batch params,
                         n_seq_max = seq_max,
                         n_usage_context = params_n_usage_context params,
                         kv_cache_seq = params_cache_seq params,
                         process_seqs = Map.empty,
                         cmpl_to_seq = [],
                         antiprompt_tokens =
                           (if params_chat_template params = ''vicuna''
                            then common_tokenize eng ''ASSISTANT:''
                            else if params_chat_template params = ''deepseek''
                            then common_tokenize eng ''###''
                            else []),
                         n_threads = params_n_threads params,
                         lock_trace = []\<rparr>))"

subsection \<open>Antiprompt test\<close>

text \<open>
  \<^verbatim>\<open>std::equal(first1, last1, first2)\<close>: walks the first range and compares it
  element by element with what starts at \<^verbatim>\<open>first2\<close>. The second range is read as
  far as the first one is long; here both have the same length (the caller's guard).
\<close>

fun std_equal :: "'a list \<Rightarrow> 'a list \<Rightarrow> bool" where
  "std_equal [] ys = True"
| "std_equal (x # xs) [] = False"
| "std_equal (x # xs) (y # ys) = (if x = y then std_equal xs ys else False)"

text \<open>
  \<^verbatim>\<open>check_antiprompt\<close>. The iterator
  \<^verbatim>\<open>generated_tokens.end() - antiprompt_tokens.size()\<close> points to the last
  \<^verbatim>\<open>antiprompt_tokens.size()\<close> elements; the guard before it keeps it inside the
  vector.
\<close>

definition check_antiprompt :: "LlamaMicoContext \<Rightarrow> llama_tokens \<Rightarrow> bool" where
  "check_antiprompt ctx generated_tokens =
     (if antiprompt_tokens ctx = [] \<or>
         length generated_tokens < length (antiprompt_tokens ctx)
      then False
      else std_equal
             (drop (length generated_tokens - length (antiprompt_tokens ctx))
                generated_tokens)
             (antiprompt_tokens ctx))"

subsection \<open>The callers of the allocator\<close>

text \<open>
  The record that the reference returned by \<^verbatim>\<open>get_seq_state\<close> denotes: the stored
  one, or the initial one that the subscript creates.
\<close>

definition seq_state :: "LlamaMicoContext \<Rightarrow> size_t \<Rightarrow> LlamaSeqState" where
  "seq_state ctx seq_id =
     (case process_seqs ctx seq_id of None \<Rightarrow> LlamaSeqState_init | Some st \<Rightarrow> st)"

text \<open>
  Modelled from the spec: the generation loop, which is not among these sources. The
  spec says of it: "Reservation records the mapping but does not itself set is_inferring;
  the generation loop sets that flag after it begins consuming the slot". The loop
  reaches the record of its slot through \<^verbatim>\<open>get_seq_state\<close> (the \<^verbatim>\<open>int32_t\<close> slot
  converted to \<^verbatim>\<open>size_t\<close>) and stores true in \<^verbatim>\<open>is_infering\<close>.
\<close>

definition begin_inference :: "LlamaMicoContext \<Rightarrow> int32_t \<Rightarrow> LlamaMicoContext" where
  "begin_inference ctx seq_id =
     (case get_seq_state ctx (of_int (sint seq_id)) of
        (st, ctx') \<Rightarrow>
          ctx'\<lparr>process_seqs :=
                 (process_seqs ctx')(of_int (sint seq_id) \<mapsto> st\<lparr>is_infering := True\<rparr>)\<rparr>)"

text \<open>
  A sequence of reservations, one per completion id, where each slot that is handed out
  starts generating before the next reservation is made. The result is the list of the
  values that \<^verbatim>\<open>set_seq_id\<close> returned.
\<close>

fun reserve_all :: "LlamaMicoContext \<Rightarrow> size_t list \<Rightarrow> int32_t list \<times> LlamaMicoContext" where
  "reserve_all ctx [] = ([], ctx)"
| "reserve_all ctx (cmpl_id # cmpl_ids) =
     (case set_seq_id ctx cmpl_id of
        (seq_id, ctx1) \<Rightarrow>
          (case reserve_all (if seq_id \<noteq> - 1 then begin_inference ctx1 seq_id else ctx1)
                  cmpl_ids of
             (seq_ids, ctx2) \<Rightarrow> (seq_id # seq_ids, ctx2)))"

subsection \<open>Frames\<close>

text \<open>
  What a call leaves as it was apart from the mapping and the lock trace: every other
  field of the context, the record of every slot as \<^verbatim>\<open>get_seq_state\<close> yields it,
  and every stored per-sequence record. (A record that a scan creates has the initial
  values, which is what the slot's record was before.)
\<close>

definition slots_unchanged :: "LlamaMicoContext \<Rightarrow> LlamaMicoContext \<Rightarrow> bool" where
  "slots_unchanged ctx ctx' =
     (ctx_vision ctx' = ctx_vision ctx \<and> crop_tokens_lable ctx' = crop_tokens_lable ctx \<and>
      n_batch ctx' = n_batch ctx \<and> n_seq_max ctx' = n_seq_max ctx \<and>
      n_usage_context ctx' = n_usage_context ctx \<and> kv_cache_seq ctx' = kv_cache_seq ctx \<and>
      antiprompt_tokens ctx' = antiprompt_tokens ctx \<and> n_threads ctx' = n_threads ctx \<and>
      (\<forall>k. seq_state ctx' k = seq_state ctx k) \<and>
      (\<forall>k st. process_seqs ctx k = Some st \<longrightarrow> process_seqs ctx' k = Some st))"

text \<open>The same, and the mapping is as it was too.\<close>

definition scan_frame :: "LlamaMicoContext \<Rightarrow> LlamaMicoContext \<Rightarrow> bool" where
  "scan_frame ctx ctx' = (slots_unchanged ctx ctx' \<and> cmpl_to_seq ctx' = cmpl_to_seq ctx)"

subsection \<open>States of a run of reservations\<close>

text \<open>Of the slots in range, exactly those below \<open>k\<close> are generating.\<close>

definition busy_below :: "LlamaMicoContext \<Rightarrow> nat \<Rightarrow> bool" where
  "busy_below ctx k =
     (\<forall>j. 0 \<le> j \<and> j < sint (n_seq_max ctx) \<longrightarrow>
          is_infering (seq_state ctx (of_int j)) = (j < int k))"

text \<open>The mapping holds slots below \<open>k\<close> only, each at most once.\<close>

definition mapping_below :: "LlamaMicoContext \<Rightarrow> nat \<Rightarrow> bool" where
  "mapping_below ctx k =
     (distinct (map snd (cmpl_to_seq ctx)) \<and>
      (\<forall>s \<in> snd ` set (cmpl_to_seq ctx). \<exists>j<k. s = of_nat j))"

subsection \<open>Lock events of a call\<close>

text \<open>The four operations that take a lock, as calls a thread can make.\<close>

datatype call =
  Get_seq_state size_t | Set_seq_id size_t | Get_seq_id size_t | Erase_seq int32_t







subsection \<open>Concrete inputs\<close>

text \<open>
  A context with \<open>n\<close> slots, no per-sequence record yet, and the mapping \<open>m\<close>: what
  the constructor leaves, with a mapping that earlier calls have filled.
\<close>

definition idle_context :: "int32_t \<Rightarrow> (size_t \<times> int32_t) list \<Rightarrow> LlamaMicoContext" where
  "idle_context n m =
     \<lparr>ctx_vision = Some 1, crop_tokens_lable = [], n_batch = 512, n_seq_max = n,
      n_usage_context = 0, kv_cache_seq = 0, process_seqs = Map.empty, cmpl_to_seq = m,
      antiprompt_tokens = [], n_threads = 1, lock_trace = []\<rparr>"

text \<open>
  A context with two slots where completion 7 holds slot 0 and is generating.
\<close>

definition busy_context :: LlamaMicoContext where
  "busy_context =
     (idle_context 2 [(7, 0)])
       \<lparr>process_seqs :=
          [0 \<mapsto> \<lparr>last_token = 5, n_past = 3, is_infering = True, respone = ''hi'',
                   bitmaps = []\<rparr>]\<rparr>"

text \<open>
  An engine for examples: one token per character, a template that renders a message as
  \<^verbatim>\<open><role>content</role>\<close>, and a vision loader that fails on the empty path, as
  opening a file with an empty name does.
\<close>

definition char_tokenize :: "string \<Rightarrow> llama_tokens" where
  "char_tokenize text = map (\<lambda>c. of_nat (of_char c)) text"

definition example_engine :: engine where
  "example_engine =
     \<lparr>llama_init_model = Some 1,
      llama_init_context = Some 2,
      llama_model_chat_template = Some ''chatml'',
      common_tokenize = char_tokenize,
      common_chat_format_example =
        (\<lambda>tmpl role content. ''<'' @ role @ ''>'' @ content @ ''</'' @ role @ ''>''),
      mtmd_init_from_file = (\<lambda>path use_gpu. if path = [] then None else Some 3)\<rparr>"

definition example_params :: common_params where
  "example_params =
     \<lparr>params_n_threads = 4, params_n_batch = 512, params_n_usage_context = 4096,
      params_n_seq_max = 8, params_cache_seq = 2, params_chat_template = [],
      params_mmproj_path = ''mmproj.gguf'', params_mmproj_use_gpu = True\<rparr>"

text \<open>The same configuration without a vision model path.\<close>

definition text_only_params :: common_params where
  "text_only_params = example_params\<lparr>params_mmproj_path := []\<rparr>"

text \<open>The same engine with a template that renders every message as the empty string.\<close>

definition blank_template_engine :: engine where
  "blank_template_engine =
     example_engine\<lparr>common_chat_format_example := (\<lambda>tmpl role content. [])\<rparr>"

section \<open>Properties\<close>

subsection \<open>Antiprompt test\<close>

lemma std_equal_same_length:
  "length xs = length ys \<Longrightarrow> std_equal xs ys = (xs = ys)"
  by (induction xs ys rule: std_equal.induct) auto

text \<open>
  C6. \<^verbatim>\<open>check_antiprompt\<close> is false when no antiprompt is configured or when the
  generated tokens are fewer than the antiprompt tokens; otherwise it is true exactly
  when the last \<open>length antiprompt\<close> generated tokens are the antiprompt tokens: the
  antiprompt is a suffix of the generated tokens. An occurrence elsewhere does not count.
\<close>

theorem check_antiprompt_suffix:
  "check_antiprompt ctx generated_tokens =
     (antiprompt_tokens ctx \<noteq> [] \<and>
      length (antiprompt_tokens ctx) \<le> length generated_tokens \<and>
      drop (length generated_tokens - length (antiprompt_tokens ctx)) generated_tokens =
        antiprompt_tokens ctx)"
  by (auto simp: check_antiprompt_def std_equal_same_length)

text \<open>
  With one token per character: generated text that ends in the antiprompt stops, the
  same text without its last token does not, an antiprompt that is not at the end does
  not count, and without antiprompt tokens nothing stops.
\<close>

lemma check_antiprompt_examples:
  "check_antiprompt ((idle_context 2 [])\<lparr>antiprompt_tokens := char_tokenize ''ASSISTANT:''\<rparr>)
     (char_tokenize ''Hi. ASSISTANT:'')"
  "\<not> check_antiprompt ((idle_context 2 [])\<lparr>antiprompt_tokens := char_tokenize ''ASSISTANT:''\<rparr>)
     (char_tokenize ''Hi. ASSISTANT'')"
  "\<not> check_antiprompt ((idle_context 2 [])\<lparr>antiprompt_tokens := char_tokenize ''ASSISTANT:''\<rparr>)
     (char_tokenize ''ASSISTANT: Hi.'')"
  "\<not> check_antiprompt (idle_context 2 []) (char_tokenize ''ASSISTANT:'')"
  by (simp_all add: check_antiprompt_def idle_context_def char_tokenize_def)

subsection \<open>Capacity\<close>

lemma sint_diff_in_range:
  fixes m c :: "32 word"
  assumes "0 \<le> sint c" "sint c < sint m"
  shows "sint (m - c) = sint m - sint c"
proof -
  have "sint m < 2 ^ 31" using sint_lt [of m] by simp
  moreover have "- (2 ^ 31) \<le> sint m" using sint_ge [of m] by simp
  ultimately show ?thesis
    using assms by (simp add: sint_word_diff signed_take_bit_int_eq_self)
qed

text \<open>
  C9. After construction the number of addressable slots, \<^verbatim>\<open>n_seq_max\<close>, is the
  configured maximum minus the configured cache reservation, when the reservation is at
  least 0 and below the maximum (the 32-bit subtraction does not wrap then).
\<close>

theorem n_seq_max_after_construction:
  assumes "new_LlamaMicoContext eng params = Inr ctx"
    and "0 \<le> sint (params_cache_seq params)"
    and "sint (params_cache_seq params) < sint (params_n_seq_max params)"
  shows "sint (n_seq_max ctx) = sint (params_n_seq_max params) - sint (params_cache_seq params)"
proof -
  have "n_seq_max ctx = params_n_seq_max params - params_cache_seq params"
    using assms(1)
    by (auto simp: new_LlamaMicoContext_def Let_def split: if_splits sum.splits)
  then show ?thesis
    using assms(2,3) by (simp add: sint_diff_in_range)
qed

lemma example_construction:
  "new_LlamaMicoContext example_engine example_params =
     Inr \<lparr>ctx_vision = Some 3, crop_tokens_lable = [60, 117, 115, 101, 114, 62],
          n_batch = 512, n_seq_max = 6, n_usage_context = 4096, kv_cache_seq = 2,
          process_seqs = Map.empty, cmpl_to_seq = [], antiprompt_tokens = [],
          n_threads = 4, lock_trace = []\<rparr>"
  by (simp add: new_LlamaMicoContext_def example_engine_def example_params_def char_tokenize_def
        init_vision_context_def crop_search.simps match_at.simps crop_bound_def Let_def)

theorem n_seq_max_after_construction_witness:
  "\<exists>ctx. new_LlamaMicoContext example_engine example_params = Inr ctx \<and>
         sint (n_seq_max ctx) = 6"
proof -
  obtain ctx where c: "new_LlamaMicoContext example_engine example_params = Inr ctx"
    using example_construction by blast
  have "sint (n_seq_max ctx) =
        sint (params_n_seq_max example_params) - sint (params_cache_seq example_params)"
    by (rule n_seq_max_after_construction [OF c]) (simp_all add: example_params_def)
  then show ?thesis using c by (simp add: example_params_def)
qed

subsection \<open>Vision start-up\<close>

text \<open>
  C4, as the claim states it, fails: with no vision model path configured, and every other
  start-up step passing, the loader is still called (with the empty path) and its null
  result ends the process.
\<close>

theorem vision_failure_without_path_counterexample:
  "new_LlamaMicoContext example_engine text_only_params = Inl (Exit 1) \<and>
   init_vision_context example_engine text_only_params = Inl (Exit 1) \<and>
   params_mmproj_path text_only_params = []"
  by (simp add: text_only_params_def new_LlamaMicoContext_def example_engine_def
        example_params_def char_tokenize_def init_vision_context_def crop_search.simps
        match_at.simps crop_bound_def Let_def)

text \<open>
  C4, amended. Failure to load the vision sub-context is fatal whether or not a vision
  model path was configured: \<^verbatim>\<open>init_vision_context\<close> always calls the loader with the
  configured path, a null result ends the process with status 1 and no context is
  constructed; a constructed context holds the non-null result of the loader.
\<close>

theorem vision_loader_always_consulted:
  "(mtmd_init_from_file eng (params_mmproj_path params) (params_mmproj_use_gpu params) = None \<longrightarrow>
      init_vision_context eng params = Inl (Exit 1) \<and>
      (\<forall>ctx. new_LlamaMicoContext eng params \<noteq> Inr ctx)) \<and>
   (\<forall>ctx. new_LlamaMicoContext eng params = Inr ctx \<longrightarrow>
      ctx_vision ctx \<noteq> None \<and>
      ctx_vision ctx =
        mtmd_init_from_file eng (params_mmproj_path params) (params_mmproj_use_gpu params))"
  by (auto simp: new_LlamaMicoContext_def init_vision_context_def Let_def
           split: if_splits sum.splits)

theorem vision_loader_always_consulted_witness:
  "init_vision_context example_engine text_only_params = Inl (Exit 1) \<and>
   (\<exists>ctx. new_LlamaMicoContext example_engine example_params = Inr ctx \<and>
          ctx_vision ctx = Some 3)"
proof -
  have "mtmd_init_from_file example_engine (params_mmproj_path text_only_params)
          (params_mmproj_use_gpu text_only_params) = None"
    by (simp add: example_engine_def text_only_params_def example_params_def)
  with vision_loader_always_consulted [of example_engine text_only_params]
  have a: "init_vision_context example_engine text_only_params = Inl (Exit 1)"
    by blast
  obtain ctx where c: "new_LlamaMicoContext example_engine example_params = Inr ctx"
    using example_construction by blast
  with vision_loader_always_consulted [of example_engine example_params]
  have "ctx_vision ctx =
          mtmd_init_from_file example_engine (params_mmproj_path example_params)
            (params_mmproj_use_gpu example_params)"
    by blast
  then have "ctx_vision ctx = Some 3"
    by (simp add: example_engine_def example_params_def)
  with a c show ?thesis by blast
qed

subsection \<open>Crop boundary\<close>

lemma match_at_failure: "match_at l p i j = Inl e \<Longrightarrow> e = OutOfBounds"
  by (induction l p i j rule: match_at.induct)
     (subst (asm) match_at.simps, auto split: if_splits)

lemma match_at_mismatch_in_bounds: "match_at l p i j = Inr False \<Longrightarrow> i + j < length l"
proof (induction l p i j rule: match_at.induct)
  case (1 l p i j)
  from "1.prems" show ?case
    by (subst (asm) match_at.simps) (auto split: if_splits dest: "1.IH")
qed

lemma match_at_overlong:
  "length l < i + length p \<Longrightarrow> i + j \<le> length l \<Longrightarrow> match_at l p i j \<noteq> Inr True"
proof (induction l p i j rule: match_at.induct)
  case (1 l p i j)
  have j: "j < length p" using "1.prems" by simp
  show ?case
  proof (cases "i + j < length l")
    case True
    with j "1.IH" "1.prems" show ?thesis
      by (subst match_at.simps) auto
  next
    case False
    with j show ?thesis by (subst match_at.simps) simp
  qed
qed

lemma crop_bound_wraps:
  assumes "length l < length p" "length p < 2 ^ 64"
  shows "crop_bound l p = 2 ^ 64 + length l - length p"
proof -
  have "unat (of_nat (length l) :: size_t) = length l"
       "unat (of_nat (length p) :: size_t) = length p"
    using assms by (simp_all add: unat_of_nat)
  then show ?thesis
    using assms by (simp add: crop_bound_def unat_sub_if_size word_size)
qed

lemma crop_bound_in_range:
  assumes "length p \<le> length l" "length l < 2 ^ 64"
  shows "crop_bound l p = length l - length p"
proof -
  have "unat (of_nat (length l) :: size_t) = length l"
       "unat (of_nat (length p) :: size_t) = length p"
    using assms by (simp_all add: unat_of_nat)
  then show ?thesis
    using assms by (simp add: crop_bound_def unat_sub_if_size word_size)
qed

lemma crop_search_overlong:
  assumes "length l < length p" "length p < 2 ^ 64"
  shows "i \<le> length l \<Longrightarrow> crop_search l p i = Inl OutOfBounds"
proof (induction "length l - i" arbitrary: i)
  case 0
  then have i: "i = length l" by simp
  have b: "i \<le> crop_bound l p" using assms i by (simp add: crop_bound_wraps)
  have "p \<noteq> []" using assms by auto
  then have "match_at l p i 0 = Inl OutOfBounds"
    using i by (subst match_at.simps) simp
  with b show ?case by (subst crop_search.simps) simp
next
  case (Suc n)
  then have i: "i < length l" by simp
  have b: "i \<le> crop_bound l p" using assms i by (simp add: crop_bound_wraps)
  have nt: "match_at l p i 0 \<noteq> Inr True"
    using assms i by (intro match_at_overlong) simp_all
  show ?case
  proof (cases "match_at l p i 0")
    case (Inl e)
    then have "e = OutOfBounds" by (rule match_at_failure)
    with Inl b show ?thesis by (subst crop_search.simps) simp
  next
    case (Inr found)
    with nt have f: "\<not> found" by auto
    have "crop_search l p (i + 1) = Inl OutOfBounds"
      using Suc i by (intro Suc.hyps(1)) simp_all
    with Inr f b show ?thesis by (subst crop_search.simps) simp
  qed
qed

lemma match_at_in_range:
  "i + length p \<le> length l \<Longrightarrow> j \<le> length p \<Longrightarrow>
   match_at l p i j = Inr (drop j p = take (length p - j) (drop (i + j) l))"
proof (induction l p i j rule: match_at.induct)
  case (1 l p i j)
  show ?case
  proof (cases "j < length p")
    case True
    then have ij: "i + j < length l" using "1.prems" by simp
    have dp: "drop j p = p ! j # drop (Suc j) p"
      using True by (simp add: Cons_nth_drop_Suc)
    have dl: "take (length p - j) (drop (i + j) l) =
              l ! (i + j) # take (length p - Suc j) (drop (Suc (i + j)) l)"
    proof -
      have "drop (i + j) l = l ! (i + j) # drop (Suc (i + j)) l"
        using ij by (simp add: Cons_nth_drop_Suc)
      moreover have "length p - j = Suc (length p - Suc j)" using True by simp
      ultimately show ?thesis by simp
    qed
    show ?thesis
    proof (cases "l ! (i + j) = p ! j")
      case False
      with True ij dp dl show ?thesis by (subst match_at.simps) simp
    next
      case same: True
      have "match_at l p i (j + 1) =
            Inr (drop (j + 1) p = take (length p - (j + 1)) (drop (i + (j + 1)) l))"
        using True ij same "1.prems" by (intro "1.IH") simp_all
      with True ij same dp dl show ?thesis by (subst match_at.simps) simp
    qed
  next
    case False
    with "1.prems" show ?thesis by (subst match_at.simps) simp
  qed
qed

lemma crop_search_in_range:
  assumes "length p \<le> length l" "length l < 2 ^ 64"
  shows "i \<le> Suc (length l - length p) \<Longrightarrow>
         crop_search l p i =
           Inr (case find (\<lambda>k. take (length p) (drop k l) = p) [i..<Suc (length l - length p)] of
                  None \<Rightarrow> [] | Some k \<Rightarrow> take k l)"
proof (induction "Suc (length l - length p) - i" arbitrary: i)
  case 0
  then have "i = Suc (length l - length p)" by simp
  then show ?case using assms
    by (subst crop_search.simps) (simp add: crop_bound_in_range)
next
  case (Suc n)
  then have i: "i \<le> length l - length p" by simp
  then have m: "match_at l p i 0 = Inr (p = take (length p) (drop i l))"
    using assms match_at_in_range [of i p l 0] by simp
  have u: "[i..<Suc (length l - length p)] = i # [Suc i..<Suc (length l - length p)]"
    using i by (simp add: upt_conv_Cons)
  have "crop_search l p (i + 1) =
          Inr (case find (\<lambda>k. take (length p) (drop k l) = p) [i + 1..<Suc (length l - length p)] of
                  None \<Rightarrow> [] | Some k \<Rightarrow> take k l)"
    using Suc i by (intro Suc.hyps(1)) simp_all
  with m i u show ?case using assms
    by (subst crop_search.simps) (auto simp: crop_bound_in_range)
qed

text \<open>
  Where the placeholder is not longer than the rendered label, the search is right: the
  boundary is the tokens before the first position at which the placeholder occurs, and
  it is empty when there is no such position.
\<close>

lemma crop_search_first_occurrence:
  assumes "length placeholder_tokens \<le> length label_tokens" "length label_tokens < 2 ^ 64"
  shows "crop_search label_tokens placeholder_tokens 0 =
           Inr (case find (\<lambda>k. take (length placeholder_tokens) (drop k label_tokens) =
                               placeholder_tokens)
                       [0..<Suc (length label_tokens - length placeholder_tokens)] of
                  None \<Rightarrow> [] | Some k \<Rightarrow> take k label_tokens)"
  using assms by (intro crop_search_in_range) simp_all

lemma crop_boundary_user_example:
  "crop_search (char_tokenize ''<user>*=*</user>'') (char_tokenize ''*=*'') 0 =
     Inr (char_tokenize ''<user>'')"
  by (simp add: char_tokenize_def crop_search.simps match_at.simps crop_bound_def)

text \<open>
  C5. The claim is for every pair of token sequences, and says that the boundary is empty
  when the placeholder does not occur. The code does not do that when the placeholder is
  longer than the rendered label: a template that renders the user turn as the empty
  string makes the constructor read \<^verbatim>\<open>label_tokens[0]\<close> of an empty vector, instead
  of leaving the boundary empty.
\<close>

theorem crop_boundary_blank_template:
  "new_LlamaMicoContext blank_template_engine example_params = Inl OutOfBounds"
  by (simp add: blank_template_engine_def new_LlamaMicoContext_def example_engine_def
        example_params_def char_tokenize_def init_vision_context_def crop_search.simps
        match_at.simps crop_bound_def Let_def)

text \<open>
  C10. The claim is that the search reads the rendered-label tokens only below their
  length, also when the placeholder is the longer sequence. The code does the opposite:
  whenever the placeholder is longer, the unsigned loop bound wraps around and the search
  ends in a read at or beyond the length of the label tokens.
\<close>

theorem crop_search_placeholder_longer:
  "length label_tokens < length placeholder_tokens \<Longrightarrow> length placeholder_tokens < 2 ^ 64 \<Longrightarrow>
   crop_search label_tokens placeholder_tokens 0 = Inl OutOfBounds"
  by (rule crop_search_overlong) simp_all

theorem crop_search_placeholder_longer_witness:
  "crop_search [] [1] 0 = Inl OutOfBounds"
  using crop_search_placeholder_longer [of "[]" "[1]"] by simp

subsection \<open>Release\<close>

lemma erase_seq_returns_true: "fst (erase_seq ctx seq_id)"
  by (simp add: erase_seq_def Let_def)

text \<open>
  For a slot that some completion id maps to, the entry of the first such id, in key
  order, is removed. For a slot that none maps to, the entry with the key
  18446744073709551615 is removed, if there is one.
\<close>

lemma find_seq_found:
  "find (\<lambda>e. snd e = seq_id) m = Some (k, v) \<Longrightarrow> find_seq m seq_id d = k"
  by (induction m) (auto split: if_splits)

lemma find_seq_not_found:
  "find (\<lambda>e. snd e = seq_id) m = None \<Longrightarrow> find_seq m seq_id d = d"
  by (induction m) (auto split: if_splits)

lemma erase_seq_mapped:
  assumes "find (\<lambda>e. snd e = seq_id) (cmpl_to_seq ctx) = Some (cmpl_id, v)"
  shows "fst (erase_seq ctx seq_id)"
    and "cmpl_to_seq (snd (erase_seq ctx seq_id)) = map_erase (cmpl_to_seq ctx) cmpl_id"
  using find_seq_found [OF assms]
  by (simp_all add: erase_seq_def Let_def lock_guard_def lock_guard_exit_def)

lemma erase_seq_not_mapped:
  assumes "find (\<lambda>e. snd e = seq_id) (cmpl_to_seq ctx) = None"
  shows "fst (erase_seq ctx seq_id)"
    and "cmpl_to_seq (snd (erase_seq ctx seq_id)) = map_erase (cmpl_to_seq ctx) (- 1)"
  using find_seq_not_found [OF assms]
  by (simp_all add: erase_seq_def Let_def lock_guard_def lock_guard_exit_def)

text \<open>
  C2. The claim is that releasing a slot that no completion id maps to returns false and
  leaves the mapping unchanged. The code returns true: \<open>to_erase\<close> is unsigned, so
  \<^verbatim>\<open>to_erase >= 0\<close> always holds. With an empty mapping the call returns true; with
  completion id 18446744073709551615 (the initial value of \<open>to_erase\<close>) mapped to
  slot 0, releasing the unmapped slot 1 returns true and removes that entry.
\<close>

theorem erase_seq_unmapped_slot:
  "fst (erase_seq (idle_context 2 []) 1) = True \<and>
   fst (erase_seq (idle_context 2 [(18446744073709551615, 0)]) 1) = True \<and>
   cmpl_to_seq (snd (erase_seq (idle_context 2 [(18446744073709551615, 0)]) 1)) = []"
  by (simp add: erase_seq_def idle_context_def lock_guard_def lock_guard_exit_def Let_def
        map_erase_def)

subsection \<open>Sequence slots: the scan\<close>

lemma get_seq_state_fst: "fst (get_seq_state ctx k) = seq_state ctx k"
  by (simp add: get_seq_state_def seq_state_def lock_guard_def lock_guard_exit_def Let_def
           split: option.splits)

lemma get_seq_state_snd:
  "snd (get_seq_state ctx k) =
     ctx\<lparr>process_seqs := (process_seqs ctx)(k \<mapsto> seq_state ctx k),
         lock_trace := lock_trace ctx @ [Lock process_seqs_mutex, Unlock process_seqs_mutex]\<rparr>"
  by (auto simp: get_seq_state_def seq_state_def lock_guard_def lock_guard_exit_def Let_def
                 fun_upd_idem
           split: option.splits)

lemma get_seq_state_eq:
  "get_seq_state ctx k =
     (seq_state ctx k,
      ctx\<lparr>process_seqs := (process_seqs ctx)(k \<mapsto> seq_state ctx k),
          lock_trace := lock_trace ctx @ [Lock process_seqs_mutex, Unlock process_seqs_mutex]\<rparr>)"
  by (simp add: prod_eq_iff get_seq_state_fst get_seq_state_snd)

lemma seq_state_touch [simp]:
  "seq_state (ctx\<lparr>process_seqs := (process_seqs ctx)(k \<mapsto> seq_state ctx k)\<rparr>) k' = seq_state ctx k'"
  by (simp add: seq_state_def)

lemma seq_state_lock_trace [simp]:
  "seq_state (ctx\<lparr>lock_trace := t\<rparr>) k = seq_state ctx k"
  by (simp add: seq_state_def)

lemma seq_state_cmpl_to_seq [simp]:
  "seq_state (ctx\<lparr>cmpl_to_seq := m\<rparr>) k = seq_state ctx k"
  by (simp add: seq_state_def)

lemma scan_frame_refl: "scan_frame ctx ctx"
  by (simp add: scan_frame_def slots_unchanged_def)

lemma scan_frame_trans: "scan_frame a b \<Longrightarrow> scan_frame b c \<Longrightarrow> scan_frame a c"
  by (simp add: scan_frame_def slots_unchanged_def)

lemma scan_frame_get_seq_state: "scan_frame ctx (snd (get_seq_state ctx k))"
  by (auto simp: scan_frame_def slots_unchanged_def get_seq_state_snd seq_state_def)


lemma n_seq_max_get_seq_state [simp]:
  "n_seq_max (snd (get_seq_state ctx k)) = n_seq_max ctx"
  by (simp add: get_seq_state_snd)

lemma scan_seqs_unfold:
  "scan_seqs ctx i =
     (if i < sint (n_seq_max ctx) then
        if \<not> is_infering (seq_state ctx (of_int i))
        then (of_int i, snd (get_seq_state ctx (of_int i)))
        else scan_seqs (snd (get_seq_state ctx (of_int i))) (i + 1)
      else (- 1, ctx))"
  by (subst scan_seqs.simps) (simp add: case_prod_beta get_seq_state_fst)

lemma scan_seqs_frame: "scan_seqs ctx i = (s, ctx') \<Longrightarrow> scan_frame ctx ctx'"
proof (induction "nat (sint (n_seq_max ctx) - i)" arbitrary: ctx i)
  case 0
  then have "scan_seqs ctx i = (- 1, ctx)"
    by (subst scan_seqs_unfold) simp
  with "0.prems" show ?case by (simp add: scan_frame_refl)
next
  case (Suc n)
  let ?c = "snd (get_seq_state ctx (of_int i))"
  from Suc.hyps(2) have lt: "i < sint (n_seq_max ctx)" by simp
  show ?case
  proof (cases "is_infering (seq_state ctx (of_int i))")
    case False
    with lt Suc.prems have "ctx' = ?c"
      by (subst (asm) scan_seqs_unfold) simp
    then show ?thesis by (simp add: scan_frame_get_seq_state)
  next
    case True
    with lt Suc.prems have r: "scan_seqs ?c (i + 1) = (s, ctx')"
      by (subst (asm) scan_seqs_unfold) simp
    have "scan_frame ?c ctx'"
      using Suc.hyps(2) r by (intro Suc.hyps(1)) simp_all
    then show ?thesis
      using scan_frame_get_seq_state scan_frame_trans by blast
  qed
qed

text \<open>The result of a scan from \<open>i\<close>.\<close>

lemma scan_seqs_result:
  "scan_seqs ctx i = (s, ctx') \<Longrightarrow>
   (s = - 1 \<and> (\<forall>j. i \<le> j \<and> j < sint (n_seq_max ctx) \<longrightarrow> is_infering (seq_state ctx (of_int j)))) \<or>
   (\<exists>j. i \<le> j \<and> j < sint (n_seq_max ctx) \<and> s = of_int j \<and>
        \<not> is_infering (seq_state ctx (of_int j)) \<and>
        (\<forall>j'. i \<le> j' \<and> j' < j \<longrightarrow> is_infering (seq_state ctx (of_int j'))))"
proof (induction "nat (sint (n_seq_max ctx) - i)" arbitrary: ctx i)
  case 0
  then have "scan_seqs ctx i = (- 1, ctx)"
    by (subst scan_seqs_unfold) simp
  with 0 show ?case by auto
next
  case (Suc n)
  let ?c = "snd (get_seq_state ctx (of_int i))"
  from Suc.hyps(2) have lt: "i < sint (n_seq_max ctx)" by simp
  have same: "seq_state ?c k = seq_state ctx k" for k
    using scan_frame_get_seq_state [of ctx "of_int i"] by (simp add: scan_frame_def slots_unchanged_def)
  show ?case
  proof (cases "is_infering (seq_state ctx (of_int i))")
    case False
    with lt Suc.prems have "s = of_int i"
      by (subst (asm) scan_seqs_unfold) simp
    with lt False show ?thesis by (intro disjI2 exI [of _ i]) auto
  next
    case True
    with lt Suc.prems have r: "scan_seqs ?c (i + 1) = (s, ctx')"
      by (subst (asm) scan_seqs_unfold) simp
    have ih: "(s = - 1 \<and> (\<forall>j. i + 1 \<le> j \<and> j < sint (n_seq_max ?c) \<longrightarrow> is_infering (seq_state ?c (of_int j)))) \<or>
   (\<exists>j. i + 1 \<le> j \<and> j < sint (n_seq_max ?c) \<and> s = of_int j \<and>
        \<not> is_infering (seq_state ?c (of_int j)) \<and>
        (\<forall>j'. i + 1 \<le> j' \<and> j' < j \<longrightarrow> is_infering (seq_state ?c (of_int j'))))"
      using Suc.hyps(2) r by (intro Suc.hyps(1)) simp_all
    have step: "i \<le> j \<Longrightarrow> j = i \<or> i + 1 \<le> j" for j :: int by arith
    from ih show ?thesis
    proof
      assume a: "s = - 1 \<and> (\<forall>j. i + 1 \<le> j \<and> j < sint (n_seq_max ?c) \<longrightarrow> is_infering (seq_state ?c (of_int j)))"
      have "is_infering (seq_state ctx (of_int j))" if "i \<le> j" "j < sint (n_seq_max ctx)" for j
        using step [OF that(1)] that(2) a True by (auto simp: same)
      with a show ?thesis by blast
    next
      assume "\<exists>j. i + 1 \<le> j \<and> j < sint (n_seq_max ?c) \<and> s = of_int j \<and>
        \<not> is_infering (seq_state ?c (of_int j)) \<and>
        (\<forall>j'. i + 1 \<le> j' \<and> j' < j \<longrightarrow> is_infering (seq_state ?c (of_int j')))"
      then obtain j where j: "i + 1 \<le> j" "j < sint (n_seq_max ctx)" "s = of_int j"
        "\<not> is_infering (seq_state ctx (of_int j))"
        "\<forall>j'. i + 1 \<le> j' \<and> j' < j \<longrightarrow> is_infering (seq_state ctx (of_int j'))"
        by (auto simp: same)
      have "is_infering (seq_state ctx (of_int j'))" if "i \<le> j'" "j' < j" for j'
        using step [OF that(1)] that(2) j(5) True by auto
      with j show ?thesis by (intro disjI2 exI [of _ j]) auto
    qed
  qed
qed


lemma slot_word:
  fixes n :: int32_t
  assumes "0 \<le> j" "j < sint n"
  shows "sint (of_int j :: int32_t) = j" and "(of_int j :: int32_t) \<noteq> - 1"
proof -
  have "j < 2 ^ 31" using assms(2) sint_lt [of n] by simp
  with assms(1) show s: "sint (of_int j :: int32_t) = j"
    by (simp add: sint_sbintrunc' signed_take_bit_int_eq_self)
  show "(of_int j :: int32_t) \<noteq> - 1"
  proof
    assume "(of_int j :: int32_t) = - 1"
    then have "sint (of_int j :: int32_t) = - 1" by simp
    with s assms(1) show False by simp
  qed
qed

lemma slot_key_inject:
  fixes n :: int32_t
  assumes "0 \<le> j" "j < sint n" "0 \<le> j'" "j' < sint n"
  shows "((of_int j :: size_t) = of_int j') = (j = j')"
proof -
  have "j < 2 ^ 64" "j' < 2 ^ 64" using assms(2,4) sint_lt [of n] by simp_all
  with assms(1,3) show ?thesis
    by (simp add: word_of_int_eq_iff take_bit_int_eq_self)
qed

lemma map_of_map_assign: "map_of (map_assign m k v) = (map_of m)(k \<mapsto> v)"
  by (induction m k v rule: map_assign.induct) (auto simp: fun_upd_twist)

lemma map_count_pos: "(0 < map_count m k) = (map_of m k \<noteq> None)"
  by (induction m) (auto simp: map_count_def)

lemma map_of_map_erase: "map_of (map_erase m k) k = None"
  by (induction m) (auto simp: map_erase_def)

lemma get_seq_id_eq:
  "get_seq_id ctx cmpl_id =
     (case map_of (cmpl_to_seq ctx) cmpl_id of None \<Rightarrow> - 1 | Some v \<Rightarrow> v,
      ctx\<lparr>lock_trace := lock_trace ctx @ [Lock cmpl_to_seq_mutex, Unlock cmpl_to_seq_mutex]\<rparr>)"
proof (cases "map_of (cmpl_to_seq ctx) cmpl_id")
  case None
  then have "\<not> 0 < map_count (cmpl_to_seq ctx) cmpl_id" by (simp add: map_count_pos)
  with None show ?thesis
    by (simp add: get_seq_id_def lock_guard_def lock_guard_exit_def)
next
  case (Some v)
  then have "0 < map_count (cmpl_to_seq ctx) cmpl_id" by (simp add: map_count_pos)
  with Some show ?thesis
    by (simp add: get_seq_id_def lock_guard_def lock_guard_exit_def map_subscript_def)
qed

lemma set_seq_id_eq:
  "set_seq_id ctx cmpl_id =
     (let r = scan_seqs (lock_guard cmpl_to_seq_mutex ctx) 0 in
      (fst r,
       lock_guard_exit cmpl_to_seq_mutex
         (if fst r \<noteq> - 1
          then (snd r)\<lparr>cmpl_to_seq := map_assign (cmpl_to_seq (snd r)) cmpl_id (fst r)\<rparr>
          else snd r)))"
  by (simp add: set_seq_id_def Let_def case_prod_beta)

lemma set_seq_id_mapping:
  assumes "set_seq_id ctx cmpl_id = (seq_id, ctx')"
  shows "cmpl_to_seq ctx' =
           (if seq_id \<noteq> - 1 then map_assign (cmpl_to_seq ctx) cmpl_id seq_id
            else cmpl_to_seq ctx)"
proof -
  obtain c2 where sc: "scan_seqs (lock_guard cmpl_to_seq_mutex ctx) 0 = (seq_id, c2)"
    using assms by (cases "scan_seqs (lock_guard cmpl_to_seq_mutex ctx) 0")
      (simp add: set_seq_id_eq Let_def)
  from scan_seqs_frame [OF sc] have "cmpl_to_seq c2 = cmpl_to_seq ctx"
    by (simp add: scan_frame_def slots_unchanged_def lock_guard_def)
  with assms sc show ?thesis
    by (auto simp: set_seq_id_eq Let_def lock_guard_exit_def)
qed

lemma set_seq_id_scan:
  assumes "set_seq_id ctx cmpl_id = (seq_id, ctx')"
  obtains c2 where "scan_seqs (lock_guard cmpl_to_seq_mutex ctx) 0 = (seq_id, c2)"
    and "ctx' = lock_guard_exit cmpl_to_seq_mutex
                 (if seq_id \<noteq> - 1
                  then c2\<lparr>cmpl_to_seq := map_assign (cmpl_to_seq c2) cmpl_id seq_id\<rparr>
                  else c2)"
  using assms
  by (cases "scan_seqs (lock_guard cmpl_to_seq_mutex ctx) 0") (auto simp: set_seq_id_eq Let_def)

lemma set_seq_id_frame:
  assumes "set_seq_id ctx cmpl_id = (seq_id, ctx')"
  shows "slots_unchanged ctx ctx'"
proof -
  from assms obtain c2 where sc: "scan_seqs (lock_guard cmpl_to_seq_mutex ctx) 0 = (seq_id, c2)"
    and c': "ctx' = lock_guard_exit cmpl_to_seq_mutex
                 (if seq_id \<noteq> - 1
                  then c2\<lparr>cmpl_to_seq := map_assign (cmpl_to_seq c2) cmpl_id seq_id\<rparr>
                  else c2)"
    by (rule set_seq_id_scan)
  from scan_seqs_frame [OF sc] have "slots_unchanged (lock_guard cmpl_to_seq_mutex ctx) c2"
    by (simp add: scan_frame_def)
  then show ?thesis
    by (simp add: c' slots_unchanged_def lock_guard_def lock_guard_exit_def seq_state_def)
qed

lemma set_seq_id_result:
  assumes "set_seq_id ctx cmpl_id = (seq_id, ctx')"
  shows "(seq_id = - 1 \<and>
          (\<forall>j. 0 \<le> j \<and> j < sint (n_seq_max ctx) \<longrightarrow> is_infering (seq_state ctx (of_int j)))) \<or>
         (\<exists>j. 0 \<le> j \<and> j < sint (n_seq_max ctx) \<and> seq_id = of_int j \<and>
              \<not> is_infering (seq_state ctx (of_int j)) \<and>
              (\<forall>j'. 0 \<le> j' \<and> j' < j \<longrightarrow> is_infering (seq_state ctx (of_int j'))))"
proof -
  from assms obtain c2 where sc: "scan_seqs (lock_guard cmpl_to_seq_mutex ctx) 0 = (seq_id, c2)"
    by (rule set_seq_id_scan)
  have "seq_state (lock_guard cmpl_to_seq_mutex ctx) k = seq_state ctx k" for k
    by (simp add: lock_guard_def)
  moreover have "n_seq_max (lock_guard cmpl_to_seq_mutex ctx) = n_seq_max ctx"
    by (simp add: lock_guard_def)
  ultimately show ?thesis using scan_seqs_result [OF sc] by simp
qed

subsection \<open>Lookup\<close>

lemma find_snd_unique:
  assumes "map_of m c = Some s" and "\<forall>c'. (c', s) \<in> set m \<longrightarrow> c' = c"
  shows "find (\<lambda>e. snd e = s) m = Some (c, s)"
proof -
  have "(c, s) \<in> set m" using assms(1) by (rule map_of_SomeD)
  then have "find (\<lambda>e. snd e = s) m \<noteq> None"
    by (auto simp: find_None_iff)
  then obtain e where e: "find (\<lambda>e. snd e = s) m = Some e" by blast
  then have "snd e = s" "e \<in> set m"
    by (auto simp: find_Some_iff)
  then have "e = (c, s)" using assms(2) by (cases e) auto
  with e show ?thesis by simp
qed

lemma map_of_map_erase_other: "c' \<noteq> k \<Longrightarrow> map_of (map_erase m k) c' = map_of m c'"
  by (induction m) (auto simp: map_erase_def)

text \<open>
  C7, as the claim states it, fails in its part on released ids: after two reservations
  in a row, completion ids 7 and 8 both map to slot 0; \<^verbatim>\<open>erase_seq\<close> of slot 0
  stops at the first entry and removes only that of id 7, so \<^verbatim>\<open>get_seq_id\<close> of id 8,
  whose slot has been released, still returns 0 and not \<open>-1\<close>.
\<close>

theorem lookup_after_release_counterexample:
  "cmpl_to_seq (snd (set_seq_id (snd (set_seq_id (idle_context 2 []) 7)) 8)) =
     [(7, 0), (8, 0)] \<and>
   fst (get_seq_id
         (snd (erase_seq (snd (set_seq_id (snd (set_seq_id (idle_context 2 []) 7)) 8)) 0))
         8) = 0"
  by (simp add: set_seq_id_def get_seq_id_def erase_seq_def idle_context_def lock_guard_def
        lock_guard_exit_def Let_def scan_seqs.simps get_seq_state_def LlamaSeqState_init_def
        map_erase_def map_count_def map_subscript_def)

text \<open>
  C7, amended. After \<^verbatim>\<open>set_seq_id\<close> has returned a slot for a completion id,
  \<^verbatim>\<open>get_seq_id\<close> of that id returns the same slot (and after a declined
  reservation it returns what it returned before). For a completion id that has no
  entry in the mapping (never reserved) \<^verbatim>\<open>get_seq_id\<close> returns \<open>-1\<close>. After
  \<^verbatim>\<open>erase_seq\<close> of a slot, \<^verbatim>\<open>get_seq_id\<close> returns \<open>-1\<close> for the completion id
  that mapped to the slot when it was the only one; in general for the first id, in key
  order, that mapped to it, while every other id reads as before. \<^verbatim>\<open>get_seq_id\<close>
  is a pure read: it changes neither the mapping nor any other part of the context (it
  only takes and releases \<^verbatim>\<open>cmpl_to_seq_mutex\<close>).
\<close>

theorem get_seq_id_after_set_seq_id:
  "(\<forall>seq_id ctx'. set_seq_id ctx cmpl_id = (seq_id, ctx') \<and> seq_id \<noteq> - 1 \<longrightarrow>
       fst (get_seq_id ctx' cmpl_id) = seq_id) \<and>
   (\<forall>ctx'. set_seq_id ctx cmpl_id = (- 1, ctx') \<longrightarrow>
       fst (get_seq_id ctx' cmpl_id) = fst (get_seq_id ctx cmpl_id)) \<and>
   (map_of (cmpl_to_seq ctx) cmpl_id = None \<longrightarrow> fst (get_seq_id ctx cmpl_id) = - 1) \<and>
   (map_of (cmpl_to_seq ctx) cmpl_id = Some released \<and>
    (\<forall>c. (c, released) \<in> set (cmpl_to_seq ctx) \<longrightarrow> c = cmpl_id) \<longrightarrow>
       fst (get_seq_id (snd (erase_seq ctx released)) cmpl_id) = - 1) \<and>
   (\<forall>v. find (\<lambda>e. snd e = released) (cmpl_to_seq ctx) = Some (cmpl_id, v) \<longrightarrow>
       fst (get_seq_id (snd (erase_seq ctx released)) cmpl_id) = - 1 \<and>
       (\<forall>c. c \<noteq> cmpl_id \<longrightarrow>
          fst (get_seq_id (snd (erase_seq ctx released)) c) = fst (get_seq_id ctx c))) \<and>
   snd (get_seq_id ctx cmpl_id) =
     ctx\<lparr>lock_trace := lock_trace ctx @ [Lock cmpl_to_seq_mutex, Unlock cmpl_to_seq_mutex]\<rparr> \<and>
   cmpl_to_seq (snd (get_seq_id ctx cmpl_id)) = cmpl_to_seq ctx \<and>
   process_seqs (snd (get_seq_id ctx cmpl_id)) = process_seqs ctx"
proof -
  have first: "fst (get_seq_id (snd (erase_seq ctx released)) cmpl_id) = - 1 \<and>
       (\<forall>c. c \<noteq> cmpl_id \<longrightarrow>
          fst (get_seq_id (snd (erase_seq ctx released)) c) = fst (get_seq_id ctx c))"
    if f: "find (\<lambda>e. snd e = released) (cmpl_to_seq ctx) = Some (cmpl_id, v)" for v
  proof -
    have "cmpl_to_seq (snd (erase_seq ctx released)) = map_erase (cmpl_to_seq ctx) cmpl_id"
      using erase_seq_mapped(2) [OF f] .
    then show ?thesis
      by (simp add: get_seq_id_eq map_of_map_erase map_of_map_erase_other)
  qed
  have a: "fst (get_seq_id ctx' cmpl_id) = seq_id"
    if "set_seq_id ctx cmpl_id = (seq_id, ctx') \<and> seq_id \<noteq> - 1" for seq_id ctx'
  proof -
    have "cmpl_to_seq ctx' = map_assign (cmpl_to_seq ctx) cmpl_id seq_id"
      using that set_seq_id_mapping [of ctx cmpl_id seq_id ctx'] by simp
    then show ?thesis by (simp add: get_seq_id_eq map_of_map_assign)
  qed
  have b: "fst (get_seq_id ctx' cmpl_id) = fst (get_seq_id ctx cmpl_id)"
    if "set_seq_id ctx cmpl_id = (- 1, ctx')" for ctx'
  proof -
    have "cmpl_to_seq ctx' = cmpl_to_seq ctx"
      using that set_seq_id_mapping [of ctx cmpl_id "- 1" ctx'] by simp
    then show ?thesis by (simp add: get_seq_id_eq)
  qed
  have c: "fst (get_seq_id ctx cmpl_id) = - 1" if "map_of (cmpl_to_seq ctx) cmpl_id = None"
    using that by (simp add: get_seq_id_eq)
  have d: "fst (get_seq_id (snd (erase_seq ctx released)) cmpl_id) = - 1"
    if "map_of (cmpl_to_seq ctx) cmpl_id = Some released \<and>
        (\<forall>c. (c, released) \<in> set (cmpl_to_seq ctx) \<longrightarrow> c = cmpl_id)"
    using first [of released] find_snd_unique [of "cmpl_to_seq ctx" cmpl_id released] that
    by blast
  have e: "snd (get_seq_id ctx cmpl_id) =
     ctx\<lparr>lock_trace := lock_trace ctx @ [Lock cmpl_to_seq_mutex, Unlock cmpl_to_seq_mutex]\<rparr>"
    "cmpl_to_seq (snd (get_seq_id ctx cmpl_id)) = cmpl_to_seq ctx"
    "process_seqs (snd (get_seq_id ctx cmpl_id)) = process_seqs ctx"
    by (simp_all add: get_seq_id_eq)
  from a b c d first e show ?thesis by blast
qed

theorem get_seq_id_after_set_seq_id_witness:
  "set_seq_id busy_context 8 = (1, snd (set_seq_id busy_context 8)) \<and>
   fst (get_seq_id (snd (set_seq_id busy_context 8)) 8) = 1 \<and>
   fst (get_seq_id busy_context 8) = - 1 \<and>
   fst (get_seq_id busy_context 7) = 0 \<and>
   fst (get_seq_id (snd (erase_seq busy_context 0)) 7) = - 1"
proof -
  have r: "set_seq_id busy_context 8 = (1, snd (set_seq_id busy_context 8))"
    by (simp add: prod_eq_iff set_seq_id_def busy_context_def idle_context_def lock_guard_def
          lock_guard_exit_def Let_def scan_seqs.simps get_seq_state_def LlamaSeqState_init_def)
  have n: "map_of (cmpl_to_seq busy_context) 8 = None"
    by (simp add: busy_context_def idle_context_def)
  have m: "map_of (cmpl_to_seq busy_context) 7 = Some 0 \<and>
           (\<forall>c. (c, 0) \<in> set (cmpl_to_seq busy_context) \<longrightarrow> c = 7)"
    by (simp add: busy_context_def idle_context_def)
  have l: "fst (get_seq_id busy_context 7) = 0"
    by (simp add: get_seq_id_def busy_context_def idle_context_def lock_guard_def
          lock_guard_exit_def map_count_def map_subscript_def)
  from get_seq_id_after_set_seq_id [of busy_context 8 0] r n
  have "fst (get_seq_id (snd (set_seq_id busy_context 8)) 8) = 1"
    and "fst (get_seq_id busy_context 8) = - 1"
    by simp_all
  moreover from get_seq_id_after_set_seq_id [of busy_context 7 0] m
  have "fst (get_seq_id (snd (erase_seq busy_context 0)) 7) = - 1" by blast
  ultimately show ?thesis using r l by simp
qed

subsection \<open>Reservation and the per-sequence records\<close>

text \<open>
  C8. A successful \<^verbatim>\<open>set_seq_id\<close> changes the mapping and nothing of the
  per-sequence state: every stored record is kept with all its fields, the record of
  every slot reads as before (a record that the scan creates has the initial values the
  slot's record had), \<^verbatim>\<open>is_infering\<close> of the returned slot is still false, and the
  other fields of the context are unchanged.
\<close>

theorem set_seq_id_leaves_seq_states:
  assumes "set_seq_id ctx cmpl_id = (seq_id, ctx')" and "seq_id \<noteq> - 1"
  shows "(\<forall>k st. process_seqs ctx k = Some st \<longrightarrow> process_seqs ctx' k = Some st) \<and>
         (\<forall>k st. process_seqs ctx' k = Some st \<longrightarrow> st = fst (get_seq_state ctx k)) \<and>
         (\<forall>k. fst (get_seq_state ctx' k) = fst (get_seq_state ctx k)) \<and>
         \<not> is_infering (fst (get_seq_state ctx' (of_int (sint seq_id)))) \<and>
         ctx_vision ctx' = ctx_vision ctx \<and> crop_tokens_lable ctx' = crop_tokens_lable ctx \<and>
         n_batch ctx' = n_batch ctx \<and> n_seq_max ctx' = n_seq_max ctx \<and>
         n_usage_context ctx' = n_usage_context ctx \<and> kv_cache_seq ctx' = kv_cache_seq ctx \<and>
         antiprompt_tokens ctx' = antiprompt_tokens ctx \<and> n_threads ctx' = n_threads ctx"
proof -
  have f: "slots_unchanged ctx ctx'" using assms(1) by (rule set_seq_id_frame)
  then have same: "seq_state ctx' k = seq_state ctx k" for k
    by (simp add: slots_unchanged_def)
  have created: "st = seq_state ctx k" if "process_seqs ctx' k = Some st" for k st
    using same [of k] that by (simp add: seq_state_def)
  from set_seq_id_result [OF assms(1)] assms(2)
  obtain j where j: "0 \<le> j" "j < sint (n_seq_max ctx)" "seq_id = of_int j"
    "\<not> is_infering (seq_state ctx (of_int j))"
    by blast
  have "sint seq_id = j" using j(1-3) slot_word(1) by simp
  with j(4) have "\<not> is_infering (seq_state ctx' (of_int (sint seq_id)))"
    by (simp add: same)
  with f created show ?thesis
    by (simp add: slots_unchanged_def get_seq_state_fst)
qed

theorem set_seq_id_leaves_seq_states_witness:
  "set_seq_id busy_context 8 = (1, snd (set_seq_id busy_context 8)) \<and>
   process_seqs (snd (set_seq_id busy_context 8)) 0 = process_seqs busy_context 0 \<and>
   \<not> is_infering (fst (get_seq_state (snd (set_seq_id busy_context 8)) 1))"
proof -
  have r: "set_seq_id busy_context 8 = (1, snd (set_seq_id busy_context 8))"
    by (simp add: prod_eq_iff set_seq_id_def busy_context_def idle_context_def lock_guard_def
          lock_guard_exit_def Let_def scan_seqs.simps get_seq_state_def LlamaSeqState_init_def)
  have p: "process_seqs busy_context 0 =
           Some \<lparr>last_token = 5, n_past = 3, is_infering = True, respone = ''hi'', bitmaps = []\<rparr>"
    by (simp add: busy_context_def)
  have ne: "(1 :: int32_t) \<noteq> - 1" by simp
  note t = set_seq_id_leaves_seq_states [OF r ne]
  from t p have a: "process_seqs (snd (set_seq_id busy_context 8)) 0 = process_seqs busy_context 0"
    by metis
  from t have "\<not> is_infering (fst (get_seq_state (snd (set_seq_id busy_context 8))
                  (of_int (sint (1 :: int32_t)))))"
    by blast
  then have "\<not> is_infering (fst (get_seq_state (snd (set_seq_id busy_context 8)) 1))"
    by simp
  with r a show ?thesis by blast
qed

subsection \<open>Reservation\<close>

lemma begin_inference_eq:
  "begin_inference ctx s =
     ctx\<lparr>process_seqs :=
           (process_seqs ctx)(of_int (sint s) \<mapsto> (seq_state ctx (of_int (sint s)))\<lparr>is_infering := True\<rparr>),
         lock_trace := lock_trace ctx @ [Lock process_seqs_mutex, Unlock process_seqs_mutex]\<rparr>"
  by (simp add: begin_inference_def case_prod_beta get_seq_state_fst get_seq_state_snd)

lemma seq_state_begin_inference:
  "seq_state (begin_inference ctx s) k =
     (if k = of_int (sint s) then (seq_state ctx k)\<lparr>is_infering := True\<rparr> else seq_state ctx k)"
  by (simp add: begin_inference_eq seq_state_def)

lemma set_seq_id_first_idle:
  assumes b: "busy_below ctx k" and lt: "int k < sint (n_seq_max ctx)"
    and r: "set_seq_id ctx cmpl_id = (s, ctx1)"
  shows "s = of_nat k" and "s \<noteq> - 1"
    and "cmpl_to_seq ctx1 = map_assign (cmpl_to_seq ctx) cmpl_id (of_nat k)"
    and "busy_below (begin_inference ctx1 s) (Suc k)"
    and "n_seq_max (begin_inference ctx1 s) = n_seq_max ctx"
    and "cmpl_to_seq (begin_inference ctx1 s) = cmpl_to_seq ctx1"
proof -
  let ?busy = "\<lambda>j. is_infering (seq_state ctx (of_int j))"
  have bk: "?busy j = (j < int k)" if "0 \<le> j" "j < sint (n_seq_max ctx)" for j
    using b that unfolding busy_below_def by blast
  have k0: "0 \<le> int k" by simp
  have idle_k: "\<not> ?busy (int k)"
    using bk [OF k0 lt] by blast
  from set_seq_id_result [OF r]
  have "\<exists>j. 0 \<le> j \<and> j < sint (n_seq_max ctx) \<and> s = of_int j \<and> \<not> ?busy j \<and>
            (\<forall>j'. 0 \<le> j' \<and> j' < j \<longrightarrow> ?busy j')"
  proof
    assume "s = - 1 \<and> (\<forall>j. 0 \<le> j \<and> j < sint (n_seq_max ctx) \<longrightarrow> ?busy j)"
    then have "?busy (int k)" using k0 lt by blast
    with idle_k show ?thesis by blast
  qed
  then obtain j where j: "0 \<le> j" "j < sint (n_seq_max ctx)" "s = of_int j"
    "\<not> ?busy j" "\<forall>j'. 0 \<le> j' \<and> j' < j \<longrightarrow> ?busy j'"
    by blast
  have "\<not> j < int k" using bk [OF j(1,2)] j(4) by blast
  moreover have "\<not> int k < j" using j(5) idle_k k0 by blast
  ultimately have jk: "j = int k" by simp
  then show s: "s = of_nat k" using j(3) by simp
  show ne: "s \<noteq> - 1" using j(1-3) slot_word(2) by simp
  show "cmpl_to_seq ctx1 = map_assign (cmpl_to_seq ctx) cmpl_id (of_nat k)"
    using set_seq_id_mapping [OF r] ne s by simp
  have f: "slots_unchanged ctx ctx1" using r by (rule set_seq_id_frame)
  then have n1: "n_seq_max ctx1 = n_seq_max ctx"
    and same: "\<And>k. seq_state ctx1 k = seq_state ctx k"
    by (simp_all add: slots_unchanged_def)
  show "n_seq_max (begin_inference ctx1 s) = n_seq_max ctx"
    by (simp add: begin_inference_eq n1)
  show "cmpl_to_seq (begin_inference ctx1 s) = cmpl_to_seq ctx1"
    by (simp add: begin_inference_eq)
  have "sint s = int k"
    using slot_word(1) [OF j(1,2)] j(3) jk by blast
  then have "(of_int (sint s) :: size_t) = of_int (int k)"
    by (rule arg_cong)
  then have key: "(scast s :: size_t) = of_nat k"
    by simp
  show "busy_below (begin_inference ctx1 s) (Suc k)"
    unfolding busy_below_def
  proof (intro allI impI)
    fix i
    assume i: "0 \<le> i \<and> i < sint (n_seq_max (begin_inference ctx1 s))"
    then have i': "0 \<le> i" "i < sint (n_seq_max ctx)"
      by (simp_all add: begin_inference_eq n1)
    have inj: "((of_int i :: size_t) = of_nat k) = (i = int k)"
      using i' lt slot_key_inject [of i "n_seq_max ctx" "int k"] by simp
    show "is_infering (seq_state (begin_inference ctx1 s) (of_int i)) = (i < int (Suc k))"
    proof (cases "i = int k")
      case True
      then show ?thesis by (simp add: seq_state_begin_inference key)
    next
      case False
      then have "is_infering (seq_state (begin_inference ctx1 s) (of_int i)) =
                 is_infering (seq_state ctx (of_int i))"
        by (simp add: seq_state_begin_inference key inj same)
      also have "\<dots> = (i < int k)" using b i' by (simp add: busy_below_def)
      finally show ?thesis using False by auto
    qed
  qed
qed

lemma set_seq_id_all_busy:
  assumes "\<forall>j. 0 \<le> j \<and> j < sint (n_seq_max ctx) \<longrightarrow> is_infering (seq_state ctx (of_int j))"
  shows "fst (set_seq_id ctx cmpl_id) = - 1"
    and "cmpl_to_seq (snd (set_seq_id ctx cmpl_id)) = cmpl_to_seq ctx"
proof -
  obtain s ctx' where r: "set_seq_id ctx cmpl_id = (s, ctx')"
    by (cases "set_seq_id ctx cmpl_id")
  from set_seq_id_result [OF r] assms have s: "s = - 1" by blast
  with r show "fst (set_seq_id ctx cmpl_id) = - 1" by simp
  from set_seq_id_mapping [OF r] s r
  show "cmpl_to_seq (snd (set_seq_id ctx cmpl_id)) = cmpl_to_seq ctx" by simp
qed


lemma set_map_assign_fresh:
  "c \<notin> fst ` set m \<Longrightarrow> set (map_assign m c v) = insert (c, v) (set m)"
  by (induction m c v rule: map_assign.induct) auto

lemma distinct_snd_map_assign:
  "c \<notin> fst ` set m \<Longrightarrow> v \<notin> snd ` set m \<Longrightarrow> distinct (map snd m) \<Longrightarrow>
   distinct (map snd (map_assign m c v))"
proof (induction m c v rule: map_assign.induct)
  case (1 key v)
  then show ?case by simp
next
  case (2 k w m key v)
  then show ?case
    by (auto simp: set_map_assign_fresh image_iff)
qed

lemma slot_of_nat:
  fixes n :: int32_t
  assumes "int k < sint n"
  shows "sint (of_nat k :: int32_t) = int k"
  using slot_word(1) [of "int k" n] assms by simp

lemma reserve_all_run:
  "busy_below ctx k \<Longrightarrow> int k + int (length ids) \<le> sint (n_seq_max ctx) \<Longrightarrow>
   mapping_below ctx k \<Longrightarrow> distinct ids \<Longrightarrow> set ids \<inter> fst ` set (cmpl_to_seq ctx) = {} \<Longrightarrow>
   reserve_all ctx ids = (seq_ids, ctx') \<Longrightarrow>
   seq_ids = map of_nat [k..<k + length ids] \<and> busy_below ctx' (k + length ids) \<and>
   n_seq_max ctx' = n_seq_max ctx \<and> mapping_below ctx' (k + length ids) \<and>
   set (cmpl_to_seq ctx') = set (cmpl_to_seq ctx) \<union> set (zip ids seq_ids)"
proof (induction ids arbitrary: ctx k seq_ids ctx')
  case Nil
  then show ?case by simp
next
  case (Cons c ids)
  obtain s ctx1 where r: "set_seq_id ctx c = (s, ctx1)" by (cases "set_seq_id ctx c")
  have lt: "int k < sint (n_seq_max ctx)" using Cons.prems(2) by simp
  note st = set_seq_id_first_idle [OF Cons.prems(1) lt r]
  let ?c2 = "begin_inference ctx1 s"
  obtain ss where rest: "reserve_all ?c2 ids = (ss, ctx')" and ids: "seq_ids = s # ss"
    using Cons.prems(6) r st(2) by (auto split: prod.splits)
  have m2: "cmpl_to_seq ?c2 = map_assign (cmpl_to_seq ctx) c (of_nat k)"
    using st(3,6) by simp
  have fresh: "c \<notin> fst ` set (cmpl_to_seq ctx)" using Cons.prems(5) by auto
  have newv: "(of_nat k :: int32_t) \<notin> snd ` set (cmpl_to_seq ctx)"
  proof
    assume "(of_nat k :: int32_t) \<in> snd ` set (cmpl_to_seq ctx)"
    then obtain j where j: "j < k" "(of_nat k :: int32_t) = of_nat j"
      using Cons.prems(3) by (auto simp: mapping_below_def)
    have "sint (of_nat j :: int32_t) = int j"
      using j(1) lt by (intro slot_of_nat [of j "n_seq_max ctx"]) simp
    moreover have "sint (of_nat k :: int32_t) = int k"
      using lt by (rule slot_of_nat)
    ultimately show False using j by simp
  qed
  have mb: "mapping_below ?c2 (Suc k)"
    unfolding mapping_below_def m2
  proof (intro conjI ballI)
    show "distinct (map snd (map_assign (cmpl_to_seq ctx) c (of_nat k)))"
      using fresh newv Cons.prems(3)
      by (intro distinct_snd_map_assign) (simp_all add: mapping_below_def)
  next
    fix v
    assume "v \<in> snd ` set (map_assign (cmpl_to_seq ctx) c (of_nat k))"
    then have "v = of_nat k \<or> v \<in> snd ` set (cmpl_to_seq ctx)"
      by (auto simp: set_map_assign_fresh [OF fresh])
    then show "\<exists>j<Suc k. v = of_nat j"
      using Cons.prems(3) by (auto simp: mapping_below_def less_Suc_eq)
  qed
  have keys: "set ids \<inter> fst ` set (cmpl_to_seq ?c2) = {}"
    using Cons.prems(4,5) by (auto simp: m2 set_map_assign_fresh [OF fresh])
  have e: "k + length (c # ids) = Suc k + length ids" by simp
  have ih: "ss = map of_nat [Suc k..<Suc k + length ids] \<and>
            busy_below ctx' (Suc k + length ids) \<and>
            n_seq_max ctx' = n_seq_max ?c2 \<and> mapping_below ctx' (Suc k + length ids) \<and>
            set (cmpl_to_seq ctx') = set (cmpl_to_seq ?c2) \<union> set (zip ids ss)"
    using st(4,5) Cons.prems(2,4) mb keys rest
    by (intro Cons.IH) simp_all
  have u: "[k..<k + length (c # ids)] = k # [Suc k..<Suc k + length ids]"
    using upt_conv_Cons [of k "k + Suc (length ids)"] by simp
  have "s # ss = of_nat k # map of_nat [Suc k..<Suc k + length ids]"
    using ih st(1) by blast
  then have a: "seq_ids = map of_nat [k..<k + length (c # ids)]"
    unfolding u ids by (simp only: list.map)
  have b: "busy_below ctx' (k + length (c # ids))"
    and d: "mapping_below ctx' (k + length (c # ids))"
    unfolding e using ih by blast+
  have n: "n_seq_max ctx' = n_seq_max ctx" using ih st(5) by simp
  have "set (cmpl_to_seq ctx') = set (cmpl_to_seq ?c2) \<union> set (zip ids ss)"
    using ih by blast
  moreover have "set (cmpl_to_seq ?c2) = insert (c, s) (set (cmpl_to_seq ctx))"
    using m2 st(1) set_map_assign_fresh [OF fresh, of "of_nat k"] by simp
  ultimately have m: "set (cmpl_to_seq ctx') = set (cmpl_to_seq ctx) \<union> set (zip (c # ids) seq_ids)"
    unfolding ids by auto
  from a b d n m show ?case by blast
qed

text \<open>
  C1, as the claim states it, fails: \<^verbatim>\<open>set_seq_id\<close> does not mark the slot it hands
  out, so two reservations in a row with distinct completion ids, in a context with two
  free slots, both return slot 0, and slot 0 is then mapped by both completion ids.
\<close>

theorem reserve_same_slot_counterexample:
  "fst (set_seq_id (idle_context 2 []) 7) = 0 \<and>
   fst (set_seq_id (snd (set_seq_id (idle_context 2 []) 7)) 8) = 0 \<and>
   cmpl_to_seq (snd (set_seq_id (snd (set_seq_id (idle_context 2 []) 7)) 8)) = [(7, 0), (8, 0)]"
  by (simp add: set_seq_id_def idle_context_def lock_guard_def lock_guard_exit_def Let_def
        scan_seqs.simps get_seq_state_def LlamaSeqState_init_def)

text \<open>
  C1, amended. Each reservation returns the lowest slot in range whose
  \<^verbatim>\<open>is_infering\<close> is false and maps the completion id to it (the last conjunct,
  for every context and every call); when there is no such slot it returns \<open>-1\<close> and
  leaves the mapping as it is. Starting from a context with every slot idle and an empty
  mapping, when each slot that is handed out starts generating (its \<^verbatim>\<open>is_infering\<close>
  is set) before the next reservation, reservations for up to \<^verbatim>\<open>n_seq_max\<close> distinct
  completion ids return the slots 0, 1, 2, ... in this order: distinct and in range; the
  mapping then holds exactly these pairs, so no slot is mapped by two completion ids; and
  after \<^verbatim>\<open>n_seq_max\<close> of them the next reservation returns \<open>-1\<close> and leaves the mapping
  as it is. In any context where every slot in range is generating, a reservation returns
  \<open>-1\<close> and leaves the mapping as it is.
\<close>

theorem reserve_all_distinct_slots:
  assumes idle: "\<forall>j. 0 \<le> j \<and> j < sint (n_seq_max ctx) \<longrightarrow>
                   \<not> is_infering (fst (get_seq_state ctx (of_int j)))"
    and empty: "cmpl_to_seq ctx = []"
    and ids: "distinct cmpl_ids"
    and len: "int (length cmpl_ids) \<le> sint (n_seq_max ctx)"
    and run: "reserve_all ctx cmpl_ids = (seq_ids, ctx')"
  shows "seq_ids = map of_nat [0..<length cmpl_ids] \<and>
         distinct seq_ids \<and>
         (\<forall>s \<in> set seq_ids. 0 \<le> sint s \<and> sint s < sint (n_seq_max ctx)) \<and>
         set (cmpl_to_seq ctx') = set (zip cmpl_ids seq_ids) \<and>
         distinct (map snd (cmpl_to_seq ctx')) \<and>
         (int (length cmpl_ids) = sint (n_seq_max ctx) \<longrightarrow>
            (\<forall>c. fst (set_seq_id ctx' c) = - 1 \<and>
                 cmpl_to_seq (snd (set_seq_id ctx' c)) = cmpl_to_seq ctx')) \<and>
         (\<forall>ctx0 c.
            (\<forall>j. 0 \<le> j \<and> j < sint (n_seq_max ctx0) \<longrightarrow>
                 is_infering (fst (get_seq_state ctx0 (of_int j)))) \<longrightarrow>
            fst (set_seq_id ctx0 c) = - 1 \<and>
            cmpl_to_seq (snd (set_seq_id ctx0 c)) = cmpl_to_seq ctx0) \<and>
         (\<forall>ctx0 c s ctx1.
            set_seq_id ctx0 c = (s, ctx1) \<longrightarrow>
            (s = - 1 \<and>
             (\<forall>j. 0 \<le> j \<and> j < sint (n_seq_max ctx0) \<longrightarrow>
                  is_infering (fst (get_seq_state ctx0 (of_int j)))) \<and>
             cmpl_to_seq ctx1 = cmpl_to_seq ctx0) \<or>
            (\<exists>j. 0 \<le> j \<and> j < sint (n_seq_max ctx0) \<and> s = of_int j \<and> s \<noteq> - 1 \<and>
                 \<not> is_infering (fst (get_seq_state ctx0 (of_int j))) \<and>
                 (\<forall>j'. 0 \<le> j' \<and> j' < j \<longrightarrow>
                       is_infering (fst (get_seq_state ctx0 (of_int j')))) \<and>
                 cmpl_to_seq ctx1 = map_assign (cmpl_to_seq ctx0) c s \<and>
                 map_of (cmpl_to_seq ctx1) = (map_of (cmpl_to_seq ctx0))(c \<mapsto> s)))"
proof -
  let ?m = "length cmpl_ids"
  have b0: "busy_below ctx 0"
    using idle by (simp add: busy_below_def get_seq_state_fst)
  have m0: "mapping_below ctx 0"
    by (simp add: mapping_below_def empty)
  have "seq_ids = map of_nat [0..<0 + ?m] \<and> busy_below ctx' (0 + ?m) \<and>
        n_seq_max ctx' = n_seq_max ctx \<and> mapping_below ctx' (0 + ?m) \<and>
        set (cmpl_to_seq ctx') = set (cmpl_to_seq ctx) \<union> set (zip cmpl_ids seq_ids)"
    using b0 len m0 ids run by (intro reserve_all_run) (simp_all add: empty)
  then have r: "seq_ids = map of_nat [0..<?m]" "busy_below ctx' ?m"
    "n_seq_max ctx' = n_seq_max ctx" "mapping_below ctx' ?m"
    "set (cmpl_to_seq ctx') = set (zip cmpl_ids seq_ids)"
    by (simp_all add: empty)
  have sv: "sint (of_nat j :: int32_t) = int j" if "j < ?m" for j
    using that len by (intro slot_of_nat [of j "n_seq_max ctx"]) simp
  have "inj_on (of_nat :: nat \<Rightarrow> int32_t) (set [0..<?m])"
  proof (rule inj_onI)
    fix x y
    assume x: "x \<in> set [0..<?m]" and y: "y \<in> set [0..<?m]"
      and eq: "(of_nat x :: int32_t) = of_nat y"
    have "int x = sint (of_nat x :: int32_t)" using x by (intro sv [symmetric]) simp
    also have "\<dots> = sint (of_nat y :: int32_t)" by (simp only: eq)
    also have "\<dots> = int y" using y by (intro sv) simp
    finally show "x = y" by simp
  qed
  then have d: "distinct seq_ids"
    unfolding r(1) by (simp add: distinct_map)
  have rg: "\<forall>s \<in> set seq_ids. 0 \<le> sint s \<and> sint s < sint (n_seq_max ctx)"
    unfolding r(1) using sv len by auto
  have full: "fst (set_seq_id ctx' c) = - 1 \<and>
              cmpl_to_seq (snd (set_seq_id ctx' c)) = cmpl_to_seq ctx'"
    if "int ?m = sint (n_seq_max ctx)" for c
  proof -
    have "\<forall>j. 0 \<le> j \<and> j < sint (n_seq_max ctx') \<longrightarrow> is_infering (seq_state ctx' (of_int j))"
      using r(2,3) that unfolding busy_below_def by simp
    then show ?thesis
      using set_seq_id_all_busy [of ctx' c] by blast
  qed
  have busy: "fst (set_seq_id ctx0 c) = - 1 \<and>
              cmpl_to_seq (snd (set_seq_id ctx0 c)) = cmpl_to_seq ctx0"
    if "\<forall>j. 0 \<le> j \<and> j < sint (n_seq_max ctx0) \<longrightarrow>
            is_infering (fst (get_seq_state ctx0 (of_int j)))" for ctx0 c
    using set_seq_id_all_busy [of ctx0 c] that by (simp add: get_seq_state_fst)
  have each: "(s = - 1 \<and>
             (\<forall>j. 0 \<le> j \<and> j < sint (n_seq_max ctx0) \<longrightarrow>
                  is_infering (fst (get_seq_state ctx0 (of_int j)))) \<and>
             cmpl_to_seq ctx1 = cmpl_to_seq ctx0) \<or>
            (\<exists>j. 0 \<le> j \<and> j < sint (n_seq_max ctx0) \<and> s = of_int j \<and> s \<noteq> - 1 \<and>
                 \<not> is_infering (fst (get_seq_state ctx0 (of_int j))) \<and>
                 (\<forall>j'. 0 \<le> j' \<and> j' < j \<longrightarrow>
                       is_infering (fst (get_seq_state ctx0 (of_int j')))) \<and>
                 cmpl_to_seq ctx1 = map_assign (cmpl_to_seq ctx0) c s \<and>
                 map_of (cmpl_to_seq ctx1) = (map_of (cmpl_to_seq ctx0))(c \<mapsto> s))"
    if call: "set_seq_id ctx0 c = (s, ctx1)" for ctx0 c s ctx1
  proof -
    note m = set_seq_id_mapping [OF call]
    from set_seq_id_result [OF call] show ?thesis
    proof
      assume a: "s = - 1 \<and>
        (\<forall>j. 0 \<le> j \<and> j < sint (n_seq_max ctx0) \<longrightarrow> is_infering (seq_state ctx0 (of_int j)))"
      then have "cmpl_to_seq ctx1 = cmpl_to_seq ctx0" using m by simp
      with a show ?thesis unfolding get_seq_state_fst by blast
    next
      assume "\<exists>j. 0 \<le> j \<and> j < sint (n_seq_max ctx0) \<and> s = of_int j \<and>
        \<not> is_infering (seq_state ctx0 (of_int j)) \<and>
        (\<forall>j'. 0 \<le> j' \<and> j' < j \<longrightarrow> is_infering (seq_state ctx0 (of_int j')))"
      then obtain j where j: "0 \<le> j" "j < sint (n_seq_max ctx0)" "s = of_int j"
        "\<not> is_infering (seq_state ctx0 (of_int j))"
        "\<forall>j'. 0 \<le> j' \<and> j' < j \<longrightarrow> is_infering (seq_state ctx0 (of_int j'))"
        by blast
      have ne: "s \<noteq> - 1" unfolding j(3) using j(1,2) by (rule slot_word(2))
      then have m1: "cmpl_to_seq ctx1 = map_assign (cmpl_to_seq ctx0) c s" using m by simp
      then have m2: "map_of (cmpl_to_seq ctx1) = (map_of (cmpl_to_seq ctx0))(c \<mapsto> s)"
        by (simp add: map_of_map_assign)
      from j ne m1 m2 show ?thesis unfolding get_seq_state_fst by blast
    qed
  qed
  from r(1) d rg r(5) r(4) full busy each show ?thesis
    unfolding mapping_below_def by blast
qed

lemma reserve_all_example:
  "fst (reserve_all (idle_context 2 []) [7, 8]) = [0, 1] \<and>
   cmpl_to_seq (snd (reserve_all (idle_context 2 []) [7, 8])) = [(7, 0), (8, 1)]"
  by (simp add: set_seq_id_def idle_context_def lock_guard_def lock_guard_exit_def Let_def
        scan_seqs.simps get_seq_state_def LlamaSeqState_init_def begin_inference_def)

theorem reserve_all_distinct_slots_witness:
  "fst (reserve_all (idle_context 2 []) [7, 8]) = [0, 1] \<and>
   cmpl_to_seq (snd (reserve_all (idle_context 2 []) [7, 8])) = [(7, 0), (8, 1)] \<and>
   fst (set_seq_id (snd (reserve_all (idle_context 2 []) [7, 8])) 9) = - 1 \<and>
   cmpl_to_seq (snd (set_seq_id (snd (reserve_all (idle_context 2 []) [7, 8])) 9)) =
     [(7, 0), (8, 1)]"
proof -
  let ?ctx = "idle_context 2 []"
  have idle: "\<forall>j. 0 \<le> j \<and> j < sint (n_seq_max ?ctx) \<longrightarrow>
                  \<not> is_infering (fst (get_seq_state ?ctx (of_int j)))"
    by (simp add: idle_context_def get_seq_state_def lock_guard_def lock_guard_exit_def
          LlamaSeqState_init_def)
  have run: "reserve_all ?ctx [7, 8] =
             (fst (reserve_all ?ctx [7, 8]), snd (reserve_all ?ctx [7, 8]))"
    by simp
  have "int (length [7, 8 :: size_t]) = sint (n_seq_max ?ctx)"
    by (simp add: idle_context_def)
  with reserve_all_distinct_slots [OF idle _ _ _ run]
  have "fst (set_seq_id (snd (reserve_all ?ctx [7, 8])) 9) = - 1 \<and>
        cmpl_to_seq (snd (set_seq_id (snd (reserve_all ?ctx [7, 8])) 9)) =
          cmpl_to_seq (snd (reserve_all ?ctx [7, 8]))"
    by (simp add: idle_context_def)
  with reserve_all_example show ?thesis by simp
qed

subsection \<open>The two mutexes\<close>












end
